theory Spec2Isabelle
  imports Main "HOL-Library.Word"
begin

section \<open>Exceptions of \<^verbatim>\<open>containers.hpp\<close>\<close>

text \<open>
  The header throws three kinds of exception. \<^verbatim>\<open>BufferOverflow\<close> and
  \<^verbatim>\<open>BufferUnderflow\<close> are the two classes derived from \<^verbatim>\<open>ContainerError\<close>
  (itself a \<^verbatim>\<open>std::runtime_error\<close>); both have a default constructor only, which
  passes a string literal to the base class. \<^verbatim>\<open>std::bad_variant_access\<close> is the
  standard library's exception thrown by \<^verbatim>\<open>std::get\<close>; it derives from
  \<^verbatim>\<open>std::exception\<close> directly and is not a \<^verbatim>\<open>ContainerError\<close>.
\<close>

datatype exception = BufferOverflow | BufferUnderflow | bad_variant_access

text \<open>
  \<^verbatim>\<open>catch (const ContainerError&)\<close> catches exactly the two derived classes.
\<close>

fun is_ContainerError :: "exception \<Rightarrow> bool" where
  "is_ContainerError BufferOverflow = True"
| "is_ContainerError BufferUnderflow = True"
| "is_ContainerError bad_variant_access = False"

text \<open>
  \<^verbatim>\<open>what()\<close>: the string each constructor hands to \<^verbatim>\<open>std::runtime_error\<close>. The
  text of \<^verbatim>\<open>std::bad_variant_access::what()\<close> belongs to the standard library, not to
  the header, and is the parameter \<open>lib_what\<close>.
\<close>

fun what :: "string \<Rightarrow> exception \<Rightarrow> string" where
  "what lib_what BufferOverflow = ''buffer overflow: container is full''"
| "what lib_what BufferUnderflow = ''buffer underflow: container is empty''"
| "what lib_what bad_variant_access = lib_what"

section \<open>\<^verbatim>\<open>Result<T, E>\<close>\<close>

text \<open>
  \<^verbatim>\<open>std::variant<T, E> data_\<close> (here \<open>Result_data\<close>: Isabelle refuses a name that
  ends in an underscore) holds exactly one alternative: a \<^verbatim>\<open>T\<close> (index 0) or
  an \<^verbatim>\<open>E\<close> (index 1). The two private constructors initialise it from a \<^verbatim>\<open>T\<close> and
  from an \<^verbatim>\<open>E\<close>; nothing assigns to it afterwards, so the valueless state of a variant
  never arises. The class only compiles its accessors when \<^verbatim>\<open>T\<close> and \<^verbatim>\<open>E\<close> are
  different types (\<^verbatim>\<open>std::get<T>\<close> needs \<^verbatim>\<open>T\<close> to occur once).
\<close>

datatype ('t, 'e) variant = Holds_T 't | Holds_E 'e

text \<open>\<^verbatim>\<open>std::holds_alternative<T>\<close>, \<^verbatim>\<open>std::get<T>\<close> and \<^verbatim>\<open>std::get<E>\<close>.\<close>

fun holds_alternative_T :: "('t, 'e) variant \<Rightarrow> bool" where
  "holds_alternative_T (Holds_T v) = True"
| "holds_alternative_T (Holds_E e) = False"

fun get_T :: "('t, 'e) variant \<Rightarrow> exception + 't" where
  "get_T (Holds_T v) = Inr v"
| "get_T (Holds_E e) = Inl bad_variant_access"

fun get_E :: "('t, 'e) variant \<Rightarrow> exception + 'e" where
  "get_E (Holds_E e) = Inr e"
| "get_E (Holds_T v) = Inl bad_variant_access"

datatype ('t, 'e) Result = Result (Result_data: "('t, 'e) variant")

definition Result_ok :: "'t \<Rightarrow> ('t, 'e) Result" where
  "Result_ok v = Result (Holds_T v)"

definition Result_err :: "'e \<Rightarrow> ('t, 'e) Result" where
  "Result_err e = Result (Holds_E e)"

definition Result_is_ok :: "('t, 'e) Result \<Rightarrow> bool" where
  "Result_is_ok r = holds_alternative_T (Result_data r)"

definition Result_is_err :: "('t, 'e) Result \<Rightarrow> bool" where
  "Result_is_err r = (\<not> Result_is_ok r)"

definition Result_value :: "('t, 'e) Result \<Rightarrow> exception + 't" where
  "Result_value r = get_T (Result_data r)"

definition Result_error :: "('t, 'e) Result \<Rightarrow> exception + 'e" where
  "Result_error r = get_E (Result_data r)"

section \<open>\<^verbatim>\<open>Stack<T>\<close>\<close>

text \<open>
  \<^verbatim>\<open>std::vector<T> data_\<close> (here \<open>Stack_data\<close>) is a list whose last element is
  \<^verbatim>\<open>back()\<close>. A member function that can throw returns the result (\<open>Inl\<close> the
  exception) together with the stack as it is when the call ends; a \<^verbatim>\<open>const\<close> member
  function cannot modify the object and returns its result only. Memory exhaustion in \<^verbatim>\<open>push_back\<close> is outside the
  model, so \<^verbatim>\<open>size()\<close> is the length of the list.
\<close>

record 't Stack =
  Stack_data :: "'t list"

definition Stack_init :: "'t Stack" where
  "Stack_init = \<lparr>Stack_data = []\<rparr>"

definition Stack_push :: "'t \<Rightarrow> 't Stack \<Rightarrow> 't Stack" where
  "Stack_push v s = s\<lparr>Stack_data := Stack_data s @ [v]\<rparr>"

definition Stack_pop :: "'t Stack \<Rightarrow> (exception + 't) \<times> 't Stack" where
  "Stack_pop s =
     (if Stack_data s = [] then (Inl BufferUnderflow, s)
      else let val = last (Stack_data s)
           in (Inr val, s\<lparr>Stack_data := butlast (Stack_data s)\<rparr>))"

definition Stack_top :: "'t Stack \<Rightarrow> exception + 't" where
  "Stack_top s = (if Stack_data s = [] then Inl BufferUnderflow else Inr (last (Stack_data s)))"

definition Stack_empty :: "'t Stack \<Rightarrow> bool" where
  "Stack_empty s = (Stack_data s = [])"

definition Stack_size :: "'t Stack \<Rightarrow> nat" where
  "Stack_size s = length (Stack_data s)"

definition Stack_clear :: "'t Stack \<Rightarrow> 't Stack" where
  "Stack_clear s = s\<lparr>Stack_data := []\<rparr>"

section \<open>\<^verbatim>\<open>RingBuffer<T, N>\<close>\<close>

text \<open>
  \<^verbatim>\<open>std::size_t\<close> is an unsigned integer type whose width the platform fixes: a
  \<open>'w word\<close>, for any width \<open>'w\<close>; its \<open>+\<close> and \<open>-\<close> wrap as unsigned arithmetic
  does. The template parameter \<open>N\<close> is the first argument of every operation that reads
  it. \<^verbatim>\<open>std::array<T, N> buf_{}\<close> is a list of \<open>N\<close> value-initialised elements; \<open>d\<close>
  stands for \<^verbatim>\<open>T{}\<close>. The members \<^verbatim>\<open>buf_\<close>, \<^verbatim>\<open>head_\<close>, \<^verbatim>\<open>tail_\<close> and \<^verbatim>\<open>size_\<close>
  are the fields \<open>RB_buf\<close>, \<open>RB_head\<close>, \<open>RB_tail\<close> and \<open>RB_size\<close>.

  \<^verbatim>\<open>buf_[i]\<close> is unchecked and \<^verbatim>\<open>% N\<close> is undefined for \<open>N = 0\<close>. The model makes
  both explicit: besides throwing, an operation can end in \<open>OutOfBounds\<close> or
  \<open>ModuloByZero\<close>, at the statement where the C++ would leave defined behaviour. The
  buffer paired with such an outcome carries no meaning.
\<close>

datatype fault = Thrown exception | OutOfBounds | ModuloByZero

record (overloaded) ('t, 'w) RingBuffer =
  RB_buf :: "'t list"
  RB_head :: "'w word"
  RB_tail :: "'w word"
  RB_size :: "'w word"

definition RingBuffer_init :: "'w::len word \<Rightarrow> 't \<Rightarrow> ('t, 'w) RingBuffer" where
  "RingBuffer_init N d =
     \<lparr>RB_buf = replicate (unat N) d, RB_head = 0, RB_tail = 0, RB_size = 0\<rparr>"

definition RingBuffer_empty :: "('t, 'w::len) RingBuffer \<Rightarrow> bool" where
  "RingBuffer_empty rb = (RB_size rb = 0)"

definition RingBuffer_full :: "'w::len word \<Rightarrow> ('t, 'w) RingBuffer \<Rightarrow> bool" where
  "RingBuffer_full N rb = (RB_size rb = N)"

definition RingBuffer_size :: "('t, 'w::len) RingBuffer \<Rightarrow> 'w word" where
  "RingBuffer_size rb = RB_size rb"

definition RingBuffer_capacity :: "'w::len word \<Rightarrow> ('t, 'w) RingBuffer \<Rightarrow> 'w word" where
  "RingBuffer_capacity N rb = N"

definition RingBuffer_write ::
  "'w::len word \<Rightarrow> 't \<Rightarrow> ('t, 'w) RingBuffer
     \<Rightarrow> (fault + unit) \<times> ('t, 'w) RingBuffer" where
  "RingBuffer_write N v rb =
     (if RingBuffer_full N rb then (Inl (Thrown BufferOverflow), rb)
      else if length (RB_buf rb) \<le> unat (RB_tail rb) then (Inl OutOfBounds, rb)
      else let rb1 = rb\<lparr>RB_buf := (RB_buf rb)[unat (RB_tail rb) := v]\<rparr>
           in if N = 0 then (Inl ModuloByZero, rb1)
              else let rb2 = rb1\<lparr>RB_tail := (RB_tail rb1 + 1) mod N\<rparr>;
                       rb3 = rb2\<lparr>RB_size := RB_size rb2 + 1\<rparr>
                   in (Inr (), rb3))"

definition RingBuffer_read ::
  "'w::len word \<Rightarrow> ('t, 'w) RingBuffer \<Rightarrow> (fault + 't) \<times> ('t, 'w) RingBuffer" where
  "RingBuffer_read N rb =
     (if RingBuffer_empty rb then (Inl (Thrown BufferUnderflow), rb)
      else if length (RB_buf rb) \<le> unat (RB_head rb) then (Inl OutOfBounds, rb)
      else let val = RB_buf rb ! unat (RB_head rb)
           in if N = 0 then (Inl ModuloByZero, rb)
              else let rb1 = rb\<lparr>RB_head := (RB_head rb + 1) mod N\<rparr>;
                       rb2 = rb1\<lparr>RB_size := RB_size rb1 - 1\<rparr>
                   in (Inr val, rb2))"

section \<open>Sequences of operations\<close>

text \<open>
  A caller's straight-line sequence of calls on one container. The values returned by
  the calls that return one (\<^verbatim>\<open>pop\<close>, \<^verbatim>\<open>read\<close>) are collected in call order. An
  exception, or undefined behaviour, ends the sequence there: the outcome is the fault
  and the container as the faulting call left it.
\<close>

datatype 't stack_op = Push 't | Pop

fun Stack_run :: "'t stack_op list \<Rightarrow> 't Stack \<Rightarrow> (exception + 't list) \<times> 't Stack" where
  "Stack_run [] s = (Inr [], s)"
| "Stack_run (Push v # ops) s = Stack_run ops (Stack_push v s)"
| "Stack_run (Pop # ops) s =
     (case Stack_pop s of
        (Inl e, s') \<Rightarrow> (Inl e, s')
      | (Inr x, s') \<Rightarrow>
          (case Stack_run ops s' of
             (Inl e, s'') \<Rightarrow> (Inl e, s'')
           | (Inr xs, s'') \<Rightarrow> (Inr (x # xs), s'')))"

fun pushes :: "'t stack_op list \<Rightarrow> nat" where
  "pushes [] = 0"
| "pushes (Push v # ops) = Suc (pushes ops)"
| "pushes (Pop # ops) = pushes ops"

fun pops :: "'t stack_op list \<Rightarrow> nat" where
  "pops [] = 0"
| "pops (Push v # ops) = pops ops"
| "pops (Pop # ops) = Suc (pops ops)"

text \<open>
  The LIFO law in the specification's words: \<open>pend\<close> holds the pushed values that have
  not been popped yet, the most recent first; a pop returns and removes the first of
  them. (A pop with nothing pending returns nothing; such sequences are outside the
  law.)
\<close>

fun lifo_pops :: "'t stack_op list \<Rightarrow> 't list \<Rightarrow> 't list" where
  "lifo_pops [] pend = []"
| "lifo_pops (Push v # ops) pend = lifo_pops ops (v # pend)"
| "lifo_pops (Pop # ops) (x # pend) = x # lifo_pops ops pend"
| "lifo_pops (Pop # ops) [] = lifo_pops ops []"

datatype 't rb_op = Write 't | Read

fun RingBuffer_run ::
  "'w::len word \<Rightarrow> 't rb_op list \<Rightarrow> ('t, 'w) RingBuffer
     \<Rightarrow> (fault + 't list) \<times> ('t, 'w) RingBuffer" where
  "RingBuffer_run N [] rb = (Inr [], rb)"
| "RingBuffer_run N (Write v # ops) rb =
     (case RingBuffer_write N v rb of
        (Inl f, rb') \<Rightarrow> (Inl f, rb')
      | (Inr u, rb') \<Rightarrow> RingBuffer_run N ops rb')"
| "RingBuffer_run N (Read # ops) rb =
     (case RingBuffer_read N rb of
        (Inl f, rb') \<Rightarrow> (Inl f, rb')
      | (Inr x, rb') \<Rightarrow>
          (case RingBuffer_run N ops rb' of
             (Inl f, rb'') \<Rightarrow> (Inl f, rb'')
           | (Inr xs, rb'') \<Rightarrow> (Inr (x # xs), rb'')))"

text \<open>The values passed to the writes of a sequence, in call order.\<close>

fun written :: "'t rb_op list \<Rightarrow> 't list" where
  "written [] = []"
| "written (Write v # ops) = v # written ops"
| "written (Read # ops) = written ops"

section \<open>Invariants of the ring buffer\<close>

text \<open>
  The state invariant: the array has its \<open>N\<close> slots, the count is at most \<open>N\<close>, and
  both indices are below \<open>N\<close>.
\<close>

definition RingBuffer_inv :: "'w::len word \<Rightarrow> ('t, 'w) RingBuffer \<Rightarrow> bool" where
  "RingBuffer_inv N rb =
     (length (RB_buf rb) = unat N \<and> RB_size rb \<le> N \<and> RB_head rb < N \<and> RB_tail rb < N)"

text \<open>
  The relation between the three counters, read as natural numbers (the sum is not taken
  in \<^verbatim>\<open>std::size_t\<close>, where it could wrap).
\<close>

definition RingBuffer_rel :: "'w::len word \<Rightarrow> ('t, 'w) RingBuffer \<Rightarrow> bool" where
  "RingBuffer_rel N rb =
     (unat (RB_tail rb) = (unat (RB_head rb) + unat (RB_size rb)) mod unat N)"

text \<open>The states a program can reach from the default-constructed buffer.\<close>

inductive reachable :: "'w::len word \<Rightarrow> 't \<Rightarrow> ('t, 'w) RingBuffer \<Rightarrow> bool"
  for N :: "'w::len word" and d :: 't where
  reach_init: "reachable N d (RingBuffer_init N d)"
| reach_write: "reachable N d rb \<Longrightarrow> reachable N d (snd (RingBuffer_write N v rb))"
| reach_read: "reachable N d rb \<Longrightarrow> reachable N d (snd (RingBuffer_read N rb))"

text \<open>
  The live elements, oldest first: the \<open>RB_size\<close> slots from \<open>RB_head\<close> on, wrapping
  at \<open>N\<close>.
\<close>

definition contents :: "'w::len word \<Rightarrow> ('t, 'w) RingBuffer \<Rightarrow> 't list" where
  "contents N rb =
     map (\<lambda>i. RB_buf rb ! ((unat (RB_head rb) + i) mod unat N)) [0..<unat (RB_size rb)]"

section \<open>Result\<close>

text \<open>
  C6. \<open>ok(v)\<close> is a success: \<open>is_ok()\<close> holds, \<open>is_err()\<close> does not, and \<open>value()\<close>
  returns \<open>v\<close>. \<open>err(e)\<close> is an error: \<open>is_err()\<close> holds, \<open>is_ok()\<close> does not, and
  \<open>error()\<close> returns \<open>e\<close>. For every instance \<open>r\<close>, exactly one of \<open>is_ok()\<close> and
  \<open>is_err()\<close> is true.
\<close>

theorem Result_exclusivity:
  fixes v :: 't and e :: 'e and r :: "('a, 'b) Result"
  shows "Result_is_ok (Result_ok v :: ('t, 'e) Result)
       \<and> \<not> Result_is_err (Result_ok v :: ('t, 'e) Result)
       \<and> Result_value (Result_ok v :: ('t, 'e) Result) = Inr v
       \<and> Result_is_err (Result_err e :: ('t, 'e) Result)
       \<and> \<not> Result_is_ok (Result_err e :: ('t, 'e) Result)
       \<and> Result_error (Result_err e :: ('t, 'e) Result) = Inr e
       \<and> Result_is_ok r \<noteq> Result_is_err r"
  by (simp add: Result_is_ok_def Result_is_err_def Result_value_def Result_error_def
      Result_ok_def Result_err_def)

text \<open>
  C1. \<open>value()\<close> fails exactly on the error-variant instances and \<open>error()\<close> fails
  exactly on the success-variant ones, both with \<^verbatim>\<open>std::bad_variant_access\<close>. The
  exception carries nothing of the instance; it is a kind of its own, different from
  \<open>BufferUnderflow\<close> and \<open>BufferOverflow\<close> and, unlike them, not a \<open>ContainerError\<close>;
  its message is the library's fixed text.
\<close>

theorem Result_wrong_variant_access:
  fixes r :: "('t, 'e) Result"
  shows "Result_is_err r = (Result_value r = Inl bad_variant_access)
       \<and> Result_is_ok r = (Result_error r = Inl bad_variant_access)
       \<and> Result_value (Result_err e :: ('t, 'e) Result) = Inl bad_variant_access
       \<and> Result_error (Result_ok v :: ('t, 'e) Result) = Inl bad_variant_access
       \<and> bad_variant_access \<noteq> BufferUnderflow
       \<and> bad_variant_access \<noteq> BufferOverflow
       \<and> \<not> is_ContainerError bad_variant_access
       \<and> is_ContainerError BufferUnderflow
       \<and> is_ContainerError BufferOverflow
       \<and> what m bad_variant_access = m"
proof -
  obtain x where r: "r = Result x"
    by (cases r)
  show ?thesis
    by (cases x)
      (simp_all add: r Result_is_ok_def Result_is_err_def Result_value_def Result_error_def
        Result_ok_def Result_err_def)
qed

section \<open>Stack\<close>

lemma Stack_run_append:
  "Stack_run (ops1 @ ops2) s =
     (case Stack_run ops1 s of
        (Inl e, s') \<Rightarrow> (Inl e, s')
      | (Inr xs, s') \<Rightarrow>
          (case Stack_run ops2 s' of
             (Inl e, s'') \<Rightarrow> (Inl e, s'')
           | (Inr ys, s'') \<Rightarrow> (Inr (xs @ ys), s'')))"
proof (induction ops1 arbitrary: s)
  case Nil
  show ?case by (simp split: prod.splits sum.splits)
next
  case (Cons a ops1)
  show ?case
    by (cases a) (simp_all add: Cons.IH split: prod.splits sum.splits)
qed

lemma Stack_run_prefix:
  assumes "Stack_run (ops1 @ ops2) s = (Inr outs, s2)"
  shows "\<exists>outs1 s1. Stack_run ops1 s = (Inr outs1, s1)"
  using assms by (simp add: Stack_run_append split: prod.splits sum.splits)

lemma Stack_run_lifo:
  "Stack_run ops s = (Inr outs, s') \<Longrightarrow>
     outs = lifo_pops ops (rev (Stack_data s))
   \<and> Stack_size s' + pops ops = Stack_size s + pushes ops"
proof (induction ops arbitrary: s outs)
  case Nil
  then show ?case by simp
next
  case (Cons a ops)
  show ?case
  proof (cases a)
    case (Push v)
    with Cons.prems have "Stack_run ops (Stack_push v s) = (Inr outs, s')" by simp
    from Cons.IH [OF this] show ?thesis
      by (simp add: Push Stack_push_def Stack_size_def)
  next
    case Pop
    show ?thesis
    proof (cases "Stack_data s = []")
      case True
      with Cons.prems Pop show ?thesis by (simp add: Stack_pop_def)
    next
      case False
      then obtain ys y where ys: "Stack_data s = ys @ [y]"
        by (metis rev_exhaust)
      let ?s1 = "s\<lparr>Stack_data := ys\<rparr>"
      from Cons.prems Pop ys obtain xs where
        run: "Stack_run ops ?s1 = (Inr xs, s')" and outs: "outs = y # xs"
        by (auto simp: Stack_pop_def Let_def split: prod.splits sum.splits)
      from Cons.IH [OF run] show ?thesis
        by (simp add: Pop outs ys Stack_size_def)
    qed
  qed
qed

text \<open>
  Pushing \<open>xs\<close> and popping as many times returns \<open>xs\<close> reversed and restores the
  stack, whatever it held.
\<close>

lemma Stack_run_pushes:
  "Stack_run (map Push xs) s = (Inr [], s\<lparr>Stack_data := Stack_data s @ xs\<rparr>)"
  by (induction xs arbitrary: s) (simp_all add: Stack_push_def)

lemma Stack_run_drain:
  "Stack_run (replicate (length xs) Pop) (s\<lparr>Stack_data := ys @ xs\<rparr>)
     = (Inr (rev xs), s\<lparr>Stack_data := ys\<rparr>)"
proof (induction xs rule: rev_induct)
  case Nil
  show ?case by simp
next
  case (snoc x xs)
  then show ?case
    by (simp add: Stack_pop_def butlast_append flip: append_assoc)
qed

lemma Stack_push_all_pop_all:
  "Stack_run (map Push xs @ replicate (length xs) Pop) s = (Inr (rev xs), s)"
  using Stack_run_drain [where xs = xs and s = s and ys = "Stack_data s"]
  by (simp add: Stack_run_append Stack_run_pushes)

text \<open>A run on a stack fails in one way only: a pop that meets the empty stack.\<close>

lemma Stack_run_failure:
  assumes "Stack_run ops s = (Inl e, s')"
  shows "e = BufferUnderflow \<and> Stack_empty s'"
  using assms
proof (induction ops arbitrary: s)
  case Nil
  then show ?case by simp
next
  case (Cons a ops)
  show ?case
  proof (cases a)
    case (Push v)
    with Cons show ?thesis by simp
  next
    case Pop
    show ?thesis
    proof (cases "Stack_data s = []")
      case True
      with Cons.prems Pop show ?thesis
        by (simp add: Stack_pop_def Stack_empty_def)
    next
      case False
      with Cons.prems Pop
      have "Stack_run ops (s\<lparr>Stack_data := butlast (Stack_data s)\<rparr>) = (Inl e, s')"
        by (simp add: Stack_pop_def split: prod.splits sum.splits)
      then show ?thesis
        by (rule Cons.IH)
    qed
  qed
qed

text \<open>The scenario of the specification on \<^verbatim>\<open>Stack<int>\<close>.\<close>

lemma scenario_Stack:
  "Stack_run [Push 1, Push 2, Push 3, Pop, Pop, Pop] (Stack_init :: int Stack)
     = (Inr [3, 2, 1], Stack_init)
 \<and> Stack_run [Push 1, Push 2, Push 3, Pop, Pop, Pop, Pop] (Stack_init :: int Stack)
     = (Inl BufferUnderflow, Stack_init)"
  by (simp add: Stack_init_def Stack_push_def Stack_pop_def)

text \<open>
  C3. In a sequence of pushes and pops run on the empty stack in which no pop meets an
  empty stack (the run ends without an exception), every pop returns the most recently
  pushed value that has not been popped yet: the values returned are those of the LIFO
  law. After every prefix of the sequence the number of pops is at most the number of
  pushes, and \<open>size()\<close> is their difference.
\<close>

theorem Stack_lifo:
  assumes "Stack_run ops Stack_init = (Inr outs, s)"
  shows "outs = lifo_pops ops []
       \<and> (\<forall>k\<le>length ops. \<exists>outs' s'.
            Stack_run (take k ops) Stack_init = (Inr outs', s')
          \<and> pops (take k ops) \<le> pushes (take k ops)
          \<and> Stack_size s' = pushes (take k ops) - pops (take k ops))"
proof (intro conjI allI impI)
  from Stack_run_lifo [OF assms] show "outs = lifo_pops ops []"
    by (simp add: Stack_init_def)
next
  fix k
  assume "k \<le> length ops"
  from assms have "Stack_run (take k ops @ drop k ops) Stack_init = (Inr outs, s)"
    by simp
  from Stack_run_prefix [OF this] obtain outs' s' where
    run: "Stack_run (take k ops) Stack_init = (Inr outs', s')"
    by blast
  from Stack_run_lifo [OF run]
  have "Stack_size s' + pops (take k ops) = pushes (take k ops)"
    by (simp add: Stack_init_def Stack_size_def)
  with run show "\<exists>outs' s'.
            Stack_run (take k ops) Stack_init = (Inr outs', s')
          \<and> pops (take k ops) \<le> pushes (take k ops)
          \<and> Stack_size s' = pushes (take k ops) - pops (take k ops)"
    by auto
qed

theorem Stack_lifo_witness:
  "Stack_run [Push 1, Push 2, Pop, Push 3, Pop, Pop] (Stack_init :: int Stack)
     = (Inr [2, 3, 1], Stack_init)
 \<and> [2, 3, 1] = lifo_pops [Push (1::int), Push 2, Pop, Push 3, Pop, Pop] []
 \<and> 4 \<le> length [Push (1::int), Push 2, Pop, Push 3, Pop, Pop]
 \<and> (\<exists>outs' s'.
       Stack_run (take 4 [Push (1::int), Push 2, Pop, Push 3, Pop, Pop]) Stack_init
         = (Inr outs', s')
     \<and> pops (take 4 [Push (1::int), Push 2, Pop, Push 3, Pop, Pop])
         \<le> pushes (take 4 [Push (1::int), Push 2, Pop, Push 3, Pop, Pop])
     \<and> Stack_size s'
         = pushes (take 4 [Push (1::int), Push 2, Pop, Push 3, Pop, Pop])
           - pops (take 4 [Push (1::int), Push 2, Pop, Push 3, Pop, Pop]))"
proof -
  let ?ops = "[Push (1::int), Push 2, Pop, Push 3, Pop, Pop]"
  have run: "Stack_run ?ops Stack_init = (Inr [2, 3, 1], Stack_init)"
    by (simp add: Stack_init_def Stack_push_def Stack_pop_def)
  have k: "4 \<le> length ?ops"
    by simp
  from Stack_lifo [OF run] k run show ?thesis
    by blast
qed

section \<open>Underflow\<close>

text \<open>
  C5. On an empty stack \<open>pop()\<close> and \<open>top()\<close> throw \<open>BufferUnderflow\<close>, and on an
  empty ring buffer \<open>read()\<close> throws \<open>BufferUnderflow\<close>; the container after the call
  is the container before it, and its size is 0.
\<close>

theorem underflow_law:
  fixes s :: "'t Stack" and rb :: "('u, 'w::len) RingBuffer"
  assumes "Stack_empty s" and "RingBuffer_empty rb"
  shows "Stack_pop s = (Inl BufferUnderflow, s)
       \<and> Stack_top s = Inl BufferUnderflow
       \<and> Stack_size (snd (Stack_pop s)) = 0
       \<and> Stack_size s = 0
       \<and> RingBuffer_read N rb = (Inl (Thrown BufferUnderflow), rb)
       \<and> RingBuffer_size (snd (RingBuffer_read N rb)) = 0"
  using assms
  by (simp add: Stack_empty_def Stack_pop_def Stack_top_def Stack_size_def
      RingBuffer_empty_def RingBuffer_read_def RingBuffer_size_def)

theorem underflow_law_witness:
  "Stack_empty (Stack_init :: int Stack)
 \<and> RingBuffer_empty (RingBuffer_init (3 :: 64 word) (0::int))
 \<and> Stack_pop (Stack_init :: int Stack) = (Inl BufferUnderflow, Stack_init)
 \<and> Stack_top (Stack_init :: int Stack) = Inl BufferUnderflow
 \<and> Stack_size (Stack_init :: int Stack) = 0
 \<and> RingBuffer_read 3 (RingBuffer_init (3 :: 64 word) (0::int))
      = (Inl (Thrown BufferUnderflow), RingBuffer_init 3 0)
 \<and> RingBuffer_size (snd (RingBuffer_read 3 (RingBuffer_init (3 :: 64 word) (0::int)))) = 0"
proof -
  have s: "Stack_empty (Stack_init :: int Stack)"
    by (simp add: Stack_empty_def Stack_init_def)
  have rb: "RingBuffer_empty (RingBuffer_init (3 :: 64 word) (0::int))"
    by (simp add: RingBuffer_empty_def RingBuffer_init_def)
  from underflow_law [OF s rb, of 3] s rb show ?thesis
    by blast
qed

section \<open>Index arithmetic in \<^verbatim>\<open>std::size_t\<close>\<close>

text \<open>
  Below \<open>N\<close> an index or a count is not the largest \<^verbatim>\<open>std::size_t\<close>, so adding 1
  does not wrap; a non-zero count does not wrap when 1 is subtracted.
\<close>

lemma unat_succ_below:
  fixes x N :: "'w::len word"
  assumes "x < N"
  shows "unat (x + 1) = Suc (unat x)"
  using assms by unat_arith

lemma unat_next_index:
  fixes x N :: "'w::len word"
  assumes "x < N"
  shows "unat ((x + 1) mod N) = Suc (unat x) mod unat N"
  using assms by (simp add: unat_mod unat_succ_below)

lemma next_index_below:
  fixes x N :: "'w::len word"
  assumes "x < N"
  shows "(x + 1) mod N < N"
proof -
  from assms have "0 < N"
    by unat_arith
  then show ?thesis
    by (rule word_mod_less_divisor)
qed

lemma succ_count_le:
  fixes s N :: "'w::len word"
  assumes "s \<le> N" and "s \<noteq> N"
  shows "s + 1 \<le> N"
  using assms by (simp add: inc_le)

lemma unat_succ_count:
  fixes s N :: "'w::len word"
  assumes "s \<le> N" and "s \<noteq> N"
  shows "unat (s + 1) = Suc (unat s)"
  using assms by (simp add: unat_succ_below [of s N])

lemma unat_pred_count:
  fixes s :: "'w::len word"
  assumes "s \<noteq> 0"
  shows "unat (s - 1) = unat s - 1"
  using assms by (simp add: unat_minus_one)

lemma pred_count_le:
  fixes s N :: "'w::len word"
  assumes "s \<le> N" and "s \<noteq> 0"
  shows "s - 1 \<le> N"
  using assms by unat_arith

lemma ring_slots_distinct:
  fixes h i s n :: nat
  assumes "i < s" and "s < n"
  shows "(h + i) mod n \<noteq> (h + s) mod n"
proof
  assume eq: "(h + i) mod n = (h + s) mod n"
  have "h + i \<le> h + s" using assms by simp
  from mod_eq_dvd_iff_nat [OF this, of n] eq have "n dvd (h + s) - (h + i)"
    by simp
  then have "n dvd s - i" by simp
  moreover have "0 < s - i" and "s - i < n" using assms by simp_all
  ultimately show False
    by (simp add: dvd_imp_le leD)
qed


section \<open>RingBuffer: single operations\<close>

lemma RingBuffer_write_success:
  assumes "RingBuffer_inv N rb" and "\<not> RingBuffer_full N rb"
  shows "RingBuffer_write N v rb =
           (Inr (), rb\<lparr>RB_buf := (RB_buf rb)[unat (RB_tail rb) := v],
                       RB_tail := (RB_tail rb + 1) mod N,
                       RB_size := RB_size rb + 1\<rparr>)"
proof -
  from assms(1) have "unat (RB_tail rb) < length (RB_buf rb)" and "N \<noteq> 0"
    by (auto simp: RingBuffer_inv_def word_less_nat_alt)
  with assms(2) show ?thesis
    by (simp add: RingBuffer_write_def Let_def)
qed

lemma RingBuffer_read_success:
  assumes "RingBuffer_inv N rb" and "\<not> RingBuffer_empty rb"
  shows "RingBuffer_read N rb =
           (Inr (RB_buf rb ! unat (RB_head rb)),
            rb\<lparr>RB_head := (RB_head rb + 1) mod N, RB_size := RB_size rb - 1\<rparr>)"
proof -
  from assms(1) have "unat (RB_head rb) < length (RB_buf rb)" and "N \<noteq> 0"
    by (auto simp: RingBuffer_inv_def word_less_nat_alt)
  with assms(2) show ?thesis
    by (simp add: RingBuffer_read_def Let_def)
qed

lemma RingBuffer_write_failure:
  assumes "RingBuffer_full N rb"
  shows "RingBuffer_write N v rb = (Inl (Thrown BufferOverflow), rb)"
  using assms by (simp add: RingBuffer_write_def)

lemma RingBuffer_read_failure:
  assumes "RingBuffer_empty rb"
  shows "RingBuffer_read N rb = (Inl (Thrown BufferUnderflow), rb)"
  using assms by (simp add: RingBuffer_read_def)

lemma RingBuffer_init_inv:
  assumes "0 < N"
  shows "RingBuffer_inv N (RingBuffer_init N d)"
  using assms by (simp add: RingBuffer_inv_def RingBuffer_init_def)

lemma RingBuffer_init_rel: "RingBuffer_rel N (RingBuffer_init N d)"
  by (simp add: RingBuffer_rel_def RingBuffer_init_def)

lemma RingBuffer_write_inv:
  assumes "RingBuffer_inv N rb"
  shows "RingBuffer_inv N (snd (RingBuffer_write N v rb))"
proof (cases "RingBuffer_full N rb")
  case True
  with assms show ?thesis
    by (simp add: RingBuffer_write_failure)
next
  case False
  with assms show ?thesis
    by (simp add: RingBuffer_write_success)
      (simp add: RingBuffer_inv_def RingBuffer_full_def next_index_below succ_count_le [of _ N])
qed

lemma RingBuffer_read_inv:
  assumes "RingBuffer_inv N rb"
  shows "RingBuffer_inv N (snd (RingBuffer_read N rb))"
proof (cases "RingBuffer_empty rb")
  case True
  with assms show ?thesis
    by (simp add: RingBuffer_read_failure)
next
  case False
  with assms show ?thesis
    by (simp add: RingBuffer_read_success)
      (simp add: RingBuffer_inv_def RingBuffer_empty_def next_index_below pred_count_le [of _ N])
qed

lemma RingBuffer_write_rel:
  assumes "RingBuffer_inv N rb" and "RingBuffer_rel N rb"
  shows "RingBuffer_rel N (snd (RingBuffer_write N v rb))"
proof (cases "RingBuffer_full N rb")
  case True
  with assms show ?thesis
    by (simp add: RingBuffer_write_failure)
next
  case False
  from assms(1) False have
    t: "unat ((RB_tail rb + 1) mod N) = Suc (unat (RB_tail rb)) mod unat N" and
    s: "unat (RB_size rb + 1) = Suc (unat (RB_size rb))"
    by (simp_all add: RingBuffer_inv_def RingBuffer_full_def unat_next_index
        unat_succ_count [of _ N])
  from assms(2) have
    "Suc (unat (RB_tail rb)) mod unat N
       = (unat (RB_head rb) + Suc (unat (RB_size rb))) mod unat N"
    by (simp add: RingBuffer_rel_def mod_Suc_eq)
  with assms(1) False t s show ?thesis
    by (simp add: RingBuffer_write_success RingBuffer_rel_def)
qed

lemma RingBuffer_read_rel:
  assumes "RingBuffer_inv N rb" and "RingBuffer_rel N rb"
  shows "RingBuffer_rel N (snd (RingBuffer_read N rb))"
proof (cases "RingBuffer_empty rb")
  case True
  with assms show ?thesis
    by (simp add: RingBuffer_read_failure)
next
  case False
  from assms(1) False have
    h: "unat ((RB_head rb + 1) mod N) = Suc (unat (RB_head rb)) mod unat N" and
    s: "unat (RB_size rb - 1) = unat (RB_size rb) - 1" and
    pos: "0 < unat (RB_size rb)"
    by (simp_all add: RingBuffer_inv_def RingBuffer_empty_def unat_next_index unat_pred_count
        unat_gt_0)
  have "(Suc (unat (RB_head rb)) mod unat N + (unat (RB_size rb) - 1)) mod unat N
       = (Suc (unat (RB_head rb)) + (unat (RB_size rb) - 1)) mod unat N"
    by (rule mod_add_left_eq)
  also from pos have "Suc (unat (RB_head rb)) + (unat (RB_size rb) - 1)
       = unat (RB_head rb) + unat (RB_size rb)"
    by simp
  finally have
    "(Suc (unat (RB_head rb)) mod unat N + (unat (RB_size rb) - 1)) mod unat N
       = (unat (RB_head rb) + unat (RB_size rb)) mod unat N" .
  with assms False h s show ?thesis
    by (simp add: RingBuffer_read_success RingBuffer_rel_def)
qed

section \<open>RingBuffer: the stored elements\<close>

lemma length_contents: "length (contents N rb) = unat (RB_size rb)"
  by (simp add: contents_def)

lemma contents_write:
  assumes inv: "RingBuffer_inv N rb" and rel: "RingBuffer_rel N rb"
    and nf: "\<not> RingBuffer_full N rb"
  shows "contents N (snd (RingBuffer_write N v rb)) = contents N rb @ [v]"
proof -
  let ?h = "unat (RB_head rb)" and ?t = "unat (RB_tail rb)"
  let ?s = "unat (RB_size rb)" and ?n = "unat N"
  from inv nf have s: "unat (RB_size rb + 1) = Suc ?s"
    by (simp add: RingBuffer_inv_def RingBuffer_full_def unat_succ_count [of _ N])
  from inv nf have sn: "?s < ?n"
    by (simp add: RingBuffer_inv_def RingBuffer_full_def word_le_nat_alt word_unat_eq_iff)
  from inv have tl: "?t < length (RB_buf rb)"
    by (simp add: RingBuffer_inv_def word_less_nat_alt)
  from rel have t: "?t = (?h + ?s) mod ?n"
    by (simp add: RingBuffer_rel_def)
  have old: "(RB_buf rb)[?t := v] ! ((?h + i) mod ?n) = RB_buf rb ! ((?h + i) mod ?n)"
    if "i < ?s" for i
    using ring_slots_distinct [OF that sn, of ?h] t by simp
  have new: "(RB_buf rb)[?t := v] ! ((?h + ?s) mod ?n) = v"
    using tl t by simp
  have "contents N (snd (RingBuffer_write N v rb))
      = map (\<lambda>i. (RB_buf rb)[?t := v] ! ((?h + i) mod ?n)) [0..<Suc ?s]"
    using inv nf s by (simp add: RingBuffer_write_success contents_def)
  also have "\<dots> = map (\<lambda>i. (RB_buf rb)[?t := v] ! ((?h + i) mod ?n)) [0..<?s] @ [v]"
    using new by simp
  also have "map (\<lambda>i. (RB_buf rb)[?t := v] ! ((?h + i) mod ?n)) [0..<?s] = contents N rb"
    unfolding contents_def by (rule map_cong) (simp_all add: old)
  finally show ?thesis .
qed

lemma contents_read:
  assumes inv: "RingBuffer_inv N rb" and ne: "\<not> RingBuffer_empty rb"
  shows "contents N rb
           = RB_buf rb ! unat (RB_head rb) # contents N (snd (RingBuffer_read N rb))"
proof -
  let ?h = "unat (RB_head rb)"
  let ?s = "unat (RB_size rb)" and ?n = "unat N"
  from inv have hn: "?h < ?n"
    by (simp add: RingBuffer_inv_def word_less_nat_alt)
  from ne have s: "unat (RB_size rb - 1) = ?s - 1" and pos: "0 < ?s"
    by (simp_all add: RingBuffer_empty_def unat_pred_count unat_gt_0)
  from inv have h: "unat ((RB_head rb + 1) mod N) = Suc ?h mod ?n"
    by (simp add: RingBuffer_inv_def unat_next_index)
  from pos obtain m where m: "?s = Suc m"
    by (cases ?s) simp_all
  have "contents N rb = map (\<lambda>i. RB_buf rb ! ((?h + i) mod ?n)) [0..<Suc m]"
    by (simp add: contents_def m)
  also have "\<dots> = RB_buf rb ! ?h # map (\<lambda>i. RB_buf rb ! ((?h + Suc i) mod ?n)) [0..<m]"
    using hn by (simp add: map_upt_Suc del: upt_Suc)
  also have "map (\<lambda>i. RB_buf rb ! ((?h + Suc i) mod ?n)) [0..<m]
      = contents N (snd (RingBuffer_read N rb))"
    using inv ne s h m by (simp add: RingBuffer_read_success contents_def mod_add_left_eq)
  finally show ?thesis .
qed

lemma RingBuffer_run_fifo:
  assumes "RingBuffer_inv N rb" and "RingBuffer_rel N rb"
    and "RingBuffer_run N ops rb = (Inr outs, rb')"
  shows "RingBuffer_inv N rb' \<and> RingBuffer_rel N rb'
       \<and> contents N rb @ written ops = outs @ contents N rb'"
  using assms
proof (induction ops arbitrary: rb outs)
  case Nil
  then show ?case by simp
next
  case (Cons a ops)
  show ?case
  proof (cases a)
    case (Write v)
    let ?rb1 = "snd (RingBuffer_write N v rb)"
    from Cons.prems(3) Write have nf: "\<not> RingBuffer_full N rb"
      by (auto simp: RingBuffer_write_failure)
    with Cons.prems(1) have w: "fst (RingBuffer_write N v rb) = Inr ()"
      by (simp add: RingBuffer_write_success)
    with Cons.prems(3) Write have run: "RingBuffer_run N ops ?rb1 = (Inr outs, rb')"
      by (auto split: prod.splits sum.splits)
    from Cons.IH [OF RingBuffer_write_inv [OF Cons.prems(1)]
        RingBuffer_write_rel [OF Cons.prems(1,2)] run]
      contents_write [OF Cons.prems(1,2) nf, of v]
    show ?thesis
      by (simp add: Write)
  next
    case Read
    let ?rb1 = "snd (RingBuffer_read N rb)"
    let ?x = "RB_buf rb ! unat (RB_head rb)"
    from Cons.prems(3) Read have ne: "\<not> RingBuffer_empty rb"
      by (auto simp: RingBuffer_read_failure)
    with Cons.prems(1) have r: "fst (RingBuffer_read N rb) = Inr ?x"
      by (simp add: RingBuffer_read_success)
    with Cons.prems(3) Read obtain xs where
      run: "RingBuffer_run N ops ?rb1 = (Inr xs, rb')" and outs: "outs = ?x # xs"
      by (auto split: prod.splits sum.splits)
    from Cons.IH [OF RingBuffer_read_inv [OF Cons.prems(1)]
        RingBuffer_read_rel [OF Cons.prems(1,2)] run]
      contents_read [OF Cons.prems(1) ne]
    show ?thesis
      by (simp add: Read outs)
  qed
qed

lemma RingBuffer_run_append:
  "RingBuffer_run N (ops1 @ ops2) rb =
     (case RingBuffer_run N ops1 rb of
        (Inl f, rb') \<Rightarrow> (Inl f, rb')
      | (Inr xs, rb') \<Rightarrow>
          (case RingBuffer_run N ops2 rb' of
             (Inl f, rb'') \<Rightarrow> (Inl f, rb'')
           | (Inr ys, rb'') \<Rightarrow> (Inr (xs @ ys), rb'')))"
proof (induction ops1 arbitrary: rb)
  case Nil
  show ?case by (simp split: prod.splits sum.splits)
next
  case (Cons a ops1)
  show ?case
    by (cases a) (simp_all add: Cons.IH split: prod.splits sum.splits)
qed

lemma RingBuffer_run_prefix:
  assumes "RingBuffer_run N (ops1 @ ops2) rb = (Inr outs, rb2)"
  shows "\<exists>outs1 rb1. RingBuffer_run N ops1 rb = (Inr outs1, rb1)"
  using assms by (simp add: RingBuffer_run_append split: prod.splits sum.splits)

section \<open>RingBuffer: reachable states\<close>

lemma reachable_inv_rel:
  assumes "0 < N" and "reachable N d rb"
  shows "RingBuffer_inv N rb \<and> RingBuffer_rel N rb"
  using assms(2)
proof (induction rule: reachable.induct)
  case reach_init
  from assms(1) show ?case
    by (simp add: RingBuffer_init_inv RingBuffer_init_rel)
next
  case (reach_write rb v)
  then show ?case
    by (simp add: RingBuffer_write_inv RingBuffer_write_rel)
next
  case (reach_read rb)
  then show ?case
    by (simp add: RingBuffer_read_inv RingBuffer_read_rel)
qed

text \<open>
  In a reachable state of a buffer with \<open>N \<ge> 1\<close> no operation leaves defined
  behaviour: a write returns or throws \<open>BufferOverflow\<close>, a read returns or throws
  \<open>BufferUnderflow\<close>.
\<close>

lemma reachable_defined:
  assumes "0 < N" and "reachable N d rb"
  shows "fst (RingBuffer_write N v rb) = (if RingBuffer_full N rb
           then Inl (Thrown BufferOverflow) else Inr ())
       \<and> fst (RingBuffer_read N rb) = (if RingBuffer_empty rb
           then Inl (Thrown BufferUnderflow) else Inr (RB_buf rb ! unat (RB_head rb)))"
  using reachable_inv_rel [OF assms]
  by (simp add: RingBuffer_write_success RingBuffer_write_failure RingBuffer_read_success
      RingBuffer_read_failure)

text \<open>
  Where twice \<open>N\<close> fits \<^verbatim>\<open>std::size_t\<close>, the relation between the counters also holds
  with the sum taken in \<^verbatim>\<open>std::size_t\<close>.
\<close>

lemma RingBuffer_rel_word:
  fixes N :: "'w::len word"
  assumes "RingBuffer_inv N rb" and "RingBuffer_rel N rb"
    and "unat N + unat N \<le> 2 ^ LENGTH('w)"
  shows "RB_tail rb = (RB_head rb + RB_size rb) mod N"
proof -
  from assms(1) have "unat (RB_head rb) < unat N" and "unat (RB_size rb) \<le> unat N"
    by (simp_all add: RingBuffer_inv_def word_less_nat_alt word_le_nat_alt)
  with assms(3) have "unat (RB_head rb) + unat (RB_size rb) < 2 ^ LENGTH('w)"
    by simp
  then have "unat (RB_head rb + RB_size rb) = unat (RB_head rb) + unat (RB_size rb)"
    by (simp add: unat_add_lem)
  with assms(2) have "unat (RB_tail rb) = unat ((RB_head rb + RB_size rb) mod N)"
    by (simp add: RingBuffer_rel_def unat_mod)
  then show ?thesis
    by (simp add: word_unat_eq_iff)
qed

lemma init_3:
  "RingBuffer_init (3 :: 64 word) (0::int)
     = \<lparr>RB_buf = [0, 0, 0], RB_head = 0, RB_tail = 0, RB_size = 0\<rparr>"
proof -
  have "replicate 3 (0::int) = [0, 0, 0]"
    by (simp add: numeral_3_eq_3)
  then show ?thesis
    by (simp add: RingBuffer_init_def)
qed

text \<open>
  C8. For \<open>N \<ge> 1\<close> the state invariant (count at most \<open>N\<close>, head and tail below
  \<open>N\<close>, the array of \<open>N\<close> slots) holds in the default-constructed buffer; \<open>write\<close> and
  \<open>read\<close> preserve it whether they return or throw, so it holds in every reachable
  state. \<open>empty()\<close>, \<open>full()\<close>, \<open>size()\<close> and \<open>capacity()\<close> are \<^verbatim>\<open>const\<close> and only
  read the state: \<open>empty()\<close> is true exactly when the count is 0 and \<open>full()\<close> exactly
  when the count is \<open>N\<close>.
\<close>

theorem RingBuffer_invariant:
  assumes "0 < N"
  shows "RingBuffer_inv N (RingBuffer_init N d)
       \<and> (RingBuffer_inv N rb \<longrightarrow>
            RingBuffer_inv N (snd (RingBuffer_write N v rb))
          \<and> RingBuffer_inv N (snd (RingBuffer_read N rb)))
       \<and> (reachable N d rb \<longrightarrow> RingBuffer_inv N rb)
       \<and> RingBuffer_empty rb = (RB_size rb = 0)
       \<and> RingBuffer_full N rb = (RB_size rb = N)
       \<and> RingBuffer_size rb = RB_size rb
       \<and> RingBuffer_capacity N rb = N"
  using assms reachable_inv_rel [OF assms, of d rb]
  by (simp add: RingBuffer_init_inv RingBuffer_write_inv RingBuffer_read_inv
      RingBuffer_empty_def RingBuffer_full_def RingBuffer_size_def RingBuffer_capacity_def)

theorem RingBuffer_invariant_witness:
  "0 < (3 :: 64 word)
 \<and> RingBuffer_inv 3 (snd (RingBuffer_write (3 :: 64 word) 7 (RingBuffer_init 3 (0::int))))
 \<and> reachable 3 0 (snd (RingBuffer_write (3 :: 64 word) 7 (RingBuffer_init 3 (0::int))))
 \<and> RingBuffer_inv (3 :: 64 word) (RingBuffer_init 3 (0::int))
 \<and> RingBuffer_inv 3 (snd (RingBuffer_write 3 8
       (snd (RingBuffer_write (3 :: 64 word) 7 (RingBuffer_init 3 (0::int))))))
 \<and> RingBuffer_inv 3 (snd (RingBuffer_read 3
       (snd (RingBuffer_write (3 :: 64 word) 7 (RingBuffer_init 3 (0::int))))))"
proof -
  let ?rb = "snd (RingBuffer_write (3 :: 64 word) 7 (RingBuffer_init 3 (0::int)))"
  have pos: "0 < (3 :: 64 word)"
    by simp
  have inv: "RingBuffer_inv 3 ?rb"
    by (simp add: init_3 RingBuffer_write_def RingBuffer_full_def RingBuffer_inv_def Let_def)
  have reach: "reachable 3 0 ?rb"
    by (rule reach_write [OF reach_init])
  from RingBuffer_invariant [OF pos, where d = 0 and rb = ?rb and v = 8] pos inv reach
  show ?thesis
    by blast
qed

text \<open>
  C9. For \<open>N \<ge> 1\<close>, every state reachable from the default-constructed buffer
  satisfies \<open>tail = (head + size) mod N\<close>, the sum taken over the natural numbers. The
  state after a write or a read satisfies it again, and a write on a full buffer or a
  read on an empty one leaves the buffer as it was.
\<close>

theorem RingBuffer_index_relation:
  assumes "0 < N" and "reachable N d rb"
  shows "RingBuffer_rel N rb
       \<and> RingBuffer_rel N (snd (RingBuffer_write N v rb))
       \<and> RingBuffer_rel N (snd (RingBuffer_read N rb))
       \<and> (RingBuffer_full N rb \<longrightarrow> snd (RingBuffer_write N v rb) = rb)
       \<and> (RingBuffer_empty rb \<longrightarrow> snd (RingBuffer_read N rb) = rb)"
  using reachable_inv_rel [OF assms]
  by (simp add: RingBuffer_write_rel RingBuffer_read_rel RingBuffer_write_failure
      RingBuffer_read_failure)

theorem RingBuffer_index_relation_witness:
  "0 < (3 :: 64 word)
 \<and> reachable (3 :: 64 word) (0::int) (RingBuffer_init 3 0)
 \<and> RingBuffer_empty (RingBuffer_init (3 :: 64 word) (0::int))
 \<and> RingBuffer_rel (3 :: 64 word) (RingBuffer_init 3 (0::int))
 \<and> RingBuffer_rel (3 :: 64 word) (snd (RingBuffer_write 3 9 (RingBuffer_init 3 (0::int))))
 \<and> snd (RingBuffer_read (3 :: 64 word) (RingBuffer_init 3 (0::int))) = RingBuffer_init 3 0
 \<and> reachable (3 :: 64 word) (0::int)
       (snd (RingBuffer_write 3 3 (snd (RingBuffer_write 3 2
         (snd (RingBuffer_write 3 1 (RingBuffer_init 3 0)))))))
 \<and> RingBuffer_full (3 :: 64 word)
       (snd (RingBuffer_write 3 3 (snd (RingBuffer_write 3 2
         (snd (RingBuffer_write 3 1 (RingBuffer_init 3 (0::int))))))))
 \<and> RingBuffer_rel (3 :: 64 word)
       (snd (RingBuffer_write 3 3 (snd (RingBuffer_write 3 2
         (snd (RingBuffer_write 3 1 (RingBuffer_init 3 (0::int))))))))
 \<and> snd (RingBuffer_write (3 :: 64 word) 9
       (snd (RingBuffer_write 3 3 (snd (RingBuffer_write 3 2
         (snd (RingBuffer_write 3 1 (RingBuffer_init 3 (0::int)))))))))
     = snd (RingBuffer_write 3 3 (snd (RingBuffer_write 3 2
         (snd (RingBuffer_write 3 1 (RingBuffer_init 3 0))))))
 \<and> RingBuffer_rel (3 :: 64 word) (snd (RingBuffer_read 3
       (snd (RingBuffer_write 3 3 (snd (RingBuffer_write 3 2
         (snd (RingBuffer_write 3 1 (RingBuffer_init 3 (0::int))))))))))"
proof -
  let ?e = "RingBuffer_init (3 :: 64 word) (0::int)"
  let ?f = "snd (RingBuffer_write (3 :: 64 word) 3 (snd (RingBuffer_write 3 2
         (snd (RingBuffer_write 3 1 (RingBuffer_init 3 (0::int)))))))"
  have pos: "0 < (3 :: 64 word)"
    by simp
  have reach_e: "reachable 3 0 ?e"
    by (rule reach_init)
  have empty_e: "RingBuffer_empty ?e"
    by (simp add: init_3 RingBuffer_empty_def)
  have reach_f: "reachable 3 0 ?f"
    by (intro reach_write reach_init)
  have full_f: "RingBuffer_full 3 ?f"
    by (simp add: init_3 RingBuffer_write_def RingBuffer_full_def Let_def)
  from RingBuffer_index_relation [OF pos reach_e, of 9]
    RingBuffer_index_relation [OF pos reach_f, of 9]
    pos reach_e empty_e reach_f full_f
  show ?thesis
    by blast
qed

lemma reachable_zero:
  assumes "reachable (0 :: 'w::len word) d rb"
  shows "rb = RingBuffer_init 0 d"
  using assms
proof (induction rule: reachable.induct)
  case reach_init
  show ?case by simp
next
  case (reach_write rb v)
  then show ?case
    by (simp add: RingBuffer_write_failure RingBuffer_full_def RingBuffer_init_def)
next
  case (reach_read rb)
  then show ?case
    by (simp add: RingBuffer_read_failure RingBuffer_empty_def RingBuffer_init_def)
qed

text \<open>
  C10. With \<open>N = 0\<close> every reachable state is empty and full at once; every write
  throws \<open>BufferOverflow\<close> and every read throws \<open>BufferUnderflow\<close>, leaving the buffer
  as it was. No call reaches the array access or the \<^verbatim>\<open>% N\<close>: its outcome is never
  \<open>OutOfBounds\<close> or \<open>ModuloByZero\<close>.
\<close>

theorem RingBuffer_zero_capacity:
  assumes "reachable (0 :: 'w::len word) d rb"
  shows "RingBuffer_empty rb \<and> RingBuffer_full 0 rb
       \<and> RingBuffer_write 0 v rb = (Inl (Thrown BufferOverflow), rb)
       \<and> RingBuffer_read 0 rb = (Inl (Thrown BufferUnderflow), rb)
       \<and> fst (RingBuffer_write 0 v rb) \<noteq> Inl ModuloByZero
       \<and> fst (RingBuffer_write 0 v rb) \<noteq> Inl OutOfBounds
       \<and> fst (RingBuffer_read 0 rb) \<noteq> Inl ModuloByZero
       \<and> fst (RingBuffer_read 0 rb) \<noteq> Inl OutOfBounds"
proof -
  from reachable_zero [OF assms] have e: "RingBuffer_empty rb" and f: "RingBuffer_full 0 rb"
    by (simp_all add: RingBuffer_empty_def RingBuffer_full_def RingBuffer_init_def)
  then show ?thesis
    by (simp add: RingBuffer_write_failure RingBuffer_read_failure)
qed

theorem RingBuffer_zero_capacity_witness:
  "reachable (0 :: 64 word) (0::int) (RingBuffer_init 0 0)
 \<and> RingBuffer_empty (RingBuffer_init (0 :: 64 word) (0::int))
 \<and> RingBuffer_full (0 :: 64 word) (RingBuffer_init 0 (0::int))
 \<and> RingBuffer_write (0 :: 64 word) 5 (RingBuffer_init 0 (0::int))
     = (Inl (Thrown BufferOverflow), RingBuffer_init 0 0)
 \<and> RingBuffer_read (0 :: 64 word) (RingBuffer_init 0 (0::int))
     = (Inl (Thrown BufferUnderflow), RingBuffer_init 0 0)"
proof -
  have reach: "reachable (0 :: 64 word) (0::int) (RingBuffer_init 0 0)"
    by (rule reach_init)
  from RingBuffer_zero_capacity [OF reach, of 5] reach show ?thesis
    by blast
qed

text \<open>
  C7. On an empty \<^verbatim>\<open>RingBuffer<T, 1>\<close>, \<open>write(v)\<close> returns, the \<open>read()\<close> that follows
  returns \<open>v\<close>, and the buffer is then empty again with size 0: it is the buffer before
  the two calls with \<open>v\<close> in its slot.
\<close>

theorem RingBuffer_roundtrip:
  fixes rb :: "('t, 'w::len) RingBuffer"
  assumes "RingBuffer_inv 1 rb" and "RingBuffer_empty rb"
  shows "fst (RingBuffer_write 1 v rb) = Inr ()
       \<and> fst (RingBuffer_read 1 (snd (RingBuffer_write 1 v rb))) = Inr v
       \<and> RingBuffer_empty (snd (RingBuffer_read 1 (snd (RingBuffer_write 1 v rb))))
       \<and> RingBuffer_size (snd (RingBuffer_read 1 (snd (RingBuffer_write 1 v rb)))) = 0
       \<and> RingBuffer_run 1 [Write v, Read] rb = (Inr [v], rb\<lparr>RB_buf := [v]\<rparr>)"
proof -
  from assms(1) have h: "RB_head rb = 0" and t: "RB_tail rb = 0"
    and len: "length (RB_buf rb) = 1"
    by (simp_all add: RingBuffer_inv_def word_less_1)
  from assms(2) have s: "RB_size rb = 0"
    by (simp add: RingBuffer_empty_def)
  from len obtain x where buf: "RB_buf rb = [x]"
    by (cases "RB_buf rb") simp_all
  have nf: "\<not> RingBuffer_full 1 rb"
    by (simp add: RingBuffer_full_def s)
  let ?rb1 = "rb\<lparr>RB_buf := [v], RB_tail := 0, RB_size := 1\<rparr>"
  have w: "RingBuffer_write 1 v rb = (Inr (), ?rb1)"
    by (simp add: RingBuffer_write_success [OF assms(1) nf] t s buf)
  have inv1: "RingBuffer_inv 1 ?rb1"
    using assms(1) by (simp add: RingBuffer_inv_def)
  have ne: "\<not> RingBuffer_empty ?rb1"
    by (simp add: RingBuffer_empty_def)
  have r: "RingBuffer_read 1 ?rb1 = (Inr v, rb\<lparr>RB_buf := [v]\<rparr>)"
    using h t s by (simp add: RingBuffer_read_success [OF inv1 ne])
  show ?thesis
    by (simp add: w r RingBuffer_empty_def RingBuffer_size_def s)
qed

theorem RingBuffer_roundtrip_witness:
  "RingBuffer_inv (1 :: 64 word) (RingBuffer_init 1 (0::int))
 \<and> RingBuffer_empty (RingBuffer_init (1 :: 64 word) (0::int))
 \<and> fst (RingBuffer_write (1 :: 64 word) 42 (RingBuffer_init 1 (0::int))) = Inr ()
 \<and> fst (RingBuffer_read (1 :: 64 word)
       (snd (RingBuffer_write 1 42 (RingBuffer_init 1 (0::int))))) = Inr 42
 \<and> RingBuffer_empty (snd (RingBuffer_read (1 :: 64 word)
       (snd (RingBuffer_write 1 42 (RingBuffer_init 1 (0::int))))))
 \<and> RingBuffer_size (snd (RingBuffer_read (1 :: 64 word)
       (snd (RingBuffer_write 1 42 (RingBuffer_init 1 (0::int)))))) = 0"
proof -
  have inv: "RingBuffer_inv (1 :: 64 word) (RingBuffer_init 1 (0::int))"
    by (simp add: RingBuffer_init_inv)
  have e: "RingBuffer_empty (RingBuffer_init (1 :: 64 word) (0::int))"
    by (simp add: RingBuffer_empty_def RingBuffer_init_def)
  from RingBuffer_roundtrip [OF inv e, of 42] inv e show ?thesis
    by blast
qed

section \<open>RingBuffer: overflow and FIFO order\<close>

text \<open>
  From a state that satisfies the invariant, a run fails in two ways only: a write that
  meets the full buffer, or a read that meets the empty one.
\<close>

lemma RingBuffer_run_failure:
  assumes "RingBuffer_inv N rb" and "RingBuffer_run N ops rb = (Inl f, rb')"
  shows "f = Thrown BufferOverflow \<and> RingBuffer_full N rb'
       \<or> f = Thrown BufferUnderflow \<and> RingBuffer_empty rb'"
  using assms
proof (induction ops arbitrary: rb)
  case Nil
  then show ?case by simp
next
  case (Cons a ops)
  show ?case
  proof (cases a)
    case (Write v)
    show ?thesis
    proof (cases "RingBuffer_full N rb")
      case True
      with Cons.prems Write show ?thesis
        by (simp add: RingBuffer_write_failure)
    next
      case False
      with Cons.prems Write
      have "RingBuffer_run N ops (snd (RingBuffer_write N v rb)) = (Inl f, rb')"
        by (simp add: RingBuffer_write_success)
      from Cons.IH [OF RingBuffer_write_inv [OF Cons.prems(1)] this] show ?thesis .
    qed
  next
    case Read
    show ?thesis
    proof (cases "RingBuffer_empty rb")
      case True
      with Cons.prems Read show ?thesis
        by (simp add: RingBuffer_read_failure)
    next
      case False
      with Cons.prems Read
      have "RingBuffer_run N ops (snd (RingBuffer_read N rb)) = (Inl f, rb')"
        by (simp add: RingBuffer_read_success split: prod.splits sum.splits)
      from Cons.IH [OF RingBuffer_read_inv [OF Cons.prems(1)] this] show ?thesis .
    qed
  qed
qed

text \<open>The scenario of the specification on \<^verbatim>\<open>RingBuffer<int, 3>\<close>.\<close>

lemma scenario_RingBuffer:
  "RingBuffer_run (3 :: 64 word) [Write 1, Write 2, Write 3] (RingBuffer_init 3 (0::int))
     = (Inr [], \<lparr>RB_buf = [1, 2, 3], RB_head = 0, RB_tail = 0, RB_size = 3\<rparr>)
 \<and> RingBuffer_full (3 :: 64 word)
       \<lparr>RB_buf = [1, 2, 3 :: int], RB_head = 0, RB_tail = 0, RB_size = 3\<rparr>
 \<and> RingBuffer_write (3 :: 64 word) 4
       \<lparr>RB_buf = [1, 2, 3 :: int], RB_head = 0, RB_tail = 0, RB_size = 3\<rparr>
     = (Inl (Thrown BufferOverflow),
        \<lparr>RB_buf = [1, 2, 3], RB_head = 0, RB_tail = 0, RB_size = 3\<rparr>)
 \<and> RingBuffer_run (3 :: 64 word) [Read, Write 4, Read, Read, Read]
       \<lparr>RB_buf = [1, 2, 3 :: int], RB_head = 0, RB_tail = 0, RB_size = 3\<rparr>
     = (Inr [1, 2, 3, 4], \<lparr>RB_buf = [4, 2, 3], RB_head = 1, RB_tail = 1, RB_size = 0\<rparr>)"
  by (simp add: init_3 RingBuffer_write_def RingBuffer_read_def RingBuffer_full_def
      RingBuffer_empty_def Let_def)

lemma RingBuffer_run_writes:
  assumes "RingBuffer_inv N rb" and "unat (RB_size rb) + length vs \<le> unat N"
  shows "\<exists>rb'. RingBuffer_run N (map Write vs) rb = (Inr [], rb')
            \<and> RingBuffer_inv N rb'
            \<and> unat (RB_size rb') = unat (RB_size rb) + length vs"
  using assms
proof (induction vs arbitrary: rb)
  case Nil
  then show ?case by simp
next
  case (Cons v vs)
  let ?rb1 = "snd (RingBuffer_write N v rb)"
  from Cons.prems(2) have nf: "\<not> RingBuffer_full N rb"
    by (auto simp: RingBuffer_full_def)
  from Cons.prems(1) nf have s: "unat (RB_size ?rb1) = Suc (unat (RB_size rb))"
    by (simp add: RingBuffer_write_success RingBuffer_inv_def RingBuffer_full_def
        unat_succ_count [of _ N])
  from Cons.prems(1) nf have w: "RingBuffer_write N v rb = (Inr (), ?rb1)"
    by (simp add: RingBuffer_write_success)
  from Cons.prems(2) s have "unat (RB_size ?rb1) + length vs \<le> unat N"
    by simp
  from Cons.IH [OF RingBuffer_write_inv [OF Cons.prems(1)] this] s
  obtain rb' where "RingBuffer_run N (map Write vs) ?rb1 = (Inr [], rb')"
    and "RingBuffer_inv N rb'"
    and "unat (RB_size rb') = unat (RB_size rb) + length (v # vs)"
    by auto
  moreover have "RingBuffer_run N (map Write (v # vs)) rb
      = RingBuffer_run N (map Write vs) ?rb1"
    by (simp add: RingBuffer_write_success [OF Cons.prems(1) nf])
  ultimately show ?case
    by auto
qed

text \<open>
  C4. \<open>N\<close> writes on an empty buffer (\<open>N \<ge> 1\<close>), with no read between them, all
  return; the buffer is then full with size \<open>N\<close>, and a further write throws
  \<open>BufferOverflow\<close> and leaves the buffer exactly as it was: size, head, tail and every
  slot.
\<close>

theorem RingBuffer_overflow_law:
  assumes "RingBuffer_inv N rb" and "RingBuffer_empty rb" and "length vs = unat N"
  shows "\<exists>rb'. RingBuffer_run N (map Write vs) rb = (Inr [], rb')
            \<and> RingBuffer_full N rb'
            \<and> RingBuffer_size rb' = N
            \<and> RingBuffer_write N v rb' = (Inl (Thrown BufferOverflow), rb')
            \<and> RingBuffer_size (snd (RingBuffer_write N v rb')) = N"
proof -
  from assms(2,3) have "unat (RB_size rb) + length vs \<le> unat N"
    by (simp add: RingBuffer_empty_def)
  from RingBuffer_run_writes [OF assms(1) this] assms(2,3)
  obtain rb' where run: "RingBuffer_run N (map Write vs) rb = (Inr [], rb')"
    and s: "unat (RB_size rb') = unat N"
    by (auto simp: RingBuffer_empty_def)
  from s have full: "RingBuffer_full N rb'"
    by (simp add: RingBuffer_full_def word_unat_eq_iff)
  with run show ?thesis
    by (simp add: RingBuffer_write_failure RingBuffer_size_def RingBuffer_full_def)
qed

theorem RingBuffer_overflow_law_witness:
  "RingBuffer_inv (3 :: 64 word) (RingBuffer_init 3 (0::int))
 \<and> RingBuffer_empty (RingBuffer_init (3 :: 64 word) (0::int))
 \<and> length [1, 2, 3 :: int] = unat (3 :: 64 word)
 \<and> RingBuffer_run (3 :: 64 word) (map Write [1, 2, 3 :: int]) (RingBuffer_init 3 0)
     = (Inr [], \<lparr>RB_buf = [1, 2, 3], RB_head = 0, RB_tail = 0, RB_size = 3\<rparr>)
 \<and> (\<exists>rb'. RingBuffer_run (3 :: 64 word) (map Write [1, 2, 3 :: int]) (RingBuffer_init 3 0)
         = (Inr [], rb')
       \<and> RingBuffer_full 3 rb'
       \<and> RingBuffer_size rb' = 3
       \<and> RingBuffer_write 3 4 rb' = (Inl (Thrown BufferOverflow), rb')
       \<and> RingBuffer_size (snd (RingBuffer_write 3 4 rb')) = 3)"
proof -
  have inv: "RingBuffer_inv (3 :: 64 word) (RingBuffer_init 3 (0::int))"
    by (simp add: RingBuffer_init_inv)
  have e: "RingBuffer_empty (RingBuffer_init (3 :: 64 word) (0::int))"
    by (simp add: RingBuffer_empty_def RingBuffer_init_def)
  have len: "length [1, 2, 3 :: int] = unat (3 :: 64 word)"
    by simp
  have run: "RingBuffer_run (3 :: 64 word) (map Write [1, 2, 3 :: int]) (RingBuffer_init 3 0)
     = (Inr [], \<lparr>RB_buf = [1, 2, 3], RB_head = 0, RB_tail = 0, RB_size = 3\<rparr>)"
    by (simp add: init_3 RingBuffer_write_def RingBuffer_full_def Let_def)
  from RingBuffer_overflow_law [OF inv e len, of 4] inv e len run show ?thesis
    by blast
qed

text \<open>
  C2 (amended). In a sequence of writes and reads run on the default-constructed
  buffer (\<open>N \<ge> 1\<close>) in which no write meets a full buffer and no read an empty one
  (the run ends without a fault), the values returned by the reads are the first values
  passed to the writes, in the same order: as many of them as there were reads. The
  values written and not yet read are the contents of the buffer, so the two sequences
  are equal exactly when the buffer ends empty. After every prefix of the sequence
  \<open>size()\<close> is at most \<open>N\<close>.
\<close>

theorem RingBuffer_fifo:
  assumes "0 < N" and "RingBuffer_run N ops (RingBuffer_init N d) = (Inr outs, rb)"
  shows "outs = take (length outs) (written ops)
       \<and> length (written ops) = length outs + unat (RingBuffer_size rb)
       \<and> written ops = outs @ contents N rb
       \<and> (\<forall>k\<le>length ops. \<exists>outs' rb'.
            RingBuffer_run N (take k ops) (RingBuffer_init N d) = (Inr outs', rb')
          \<and> RingBuffer_size rb' \<le> N)"
proof -
  note init = RingBuffer_init_inv [OF assms(1), of d] RingBuffer_init_rel [of N d]
  have empty: "contents N (RingBuffer_init N d) = []"
    by (simp add: contents_def RingBuffer_init_def)
  from RingBuffer_run_fifo [OF init assms(2)] empty
  have all: "written ops = outs @ contents N rb"
    by simp
  then have "length (written ops) = length outs + unat (RingBuffer_size rb)"
    by (simp add: length_contents RingBuffer_size_def)
  moreover from all have "outs = take (length outs) (written ops)"
    by simp
  moreover have "\<exists>outs' rb'.
            RingBuffer_run N (take k ops) (RingBuffer_init N d) = (Inr outs', rb')
          \<and> RingBuffer_size rb' \<le> N" for k
  proof -
    from assms(2) have
      "RingBuffer_run N (take k ops @ drop k ops) (RingBuffer_init N d) = (Inr outs, rb)"
      by simp
    from RingBuffer_run_prefix [OF this] obtain outs' rb' where
      run: "RingBuffer_run N (take k ops) (RingBuffer_init N d) = (Inr outs', rb')"
      by blast
    from RingBuffer_run_fifo [OF init run] have "RingBuffer_size rb' \<le> N"
      by (simp add: RingBuffer_inv_def RingBuffer_size_def)
    with run show ?thesis
      by blast
  qed
  ultimately show ?thesis
    using all by blast
qed

theorem RingBuffer_fifo_witness:
  "0 < (3 :: 64 word)
 \<and> RingBuffer_run (3 :: 64 word) [Write (1::int), Write 2, Write 3, Read, Write 4, Read, Read]
       (RingBuffer_init 3 0)
     = (Inr [1, 2, 3], \<lparr>RB_buf = [4, 2, 3], RB_head = 0, RB_tail = 1, RB_size = 1\<rparr>)
 \<and> [1, 2, 3] = take (length [1, 2, 3 :: int])
       (written [Write (1::int), Write 2, Write 3, Read, Write 4, Read, Read])
 \<and> length (written [Write (1::int), Write 2, Write 3, Read, Write 4, Read, Read])
     = length [1, 2, 3 :: int]
       + unat (RingBuffer_size
           \<lparr>RB_buf = [4, 2, 3 :: int], RB_head = 0, RB_tail = 1, RB_size = 1 :: 64 word\<rparr>)
 \<and> written [Write (1::int), Write 2, Write 3, Read, Write 4, Read, Read]
     = [1, 2, 3] @ contents (3 :: 64 word)
         \<lparr>RB_buf = [4, 2, 3 :: int], RB_head = 0, RB_tail = 1, RB_size = 1\<rparr>
 \<and> 3 \<le> length [Write (1::int), Write 2, Write 3, Read, Write 4, Read, Read]
 \<and> (\<exists>outs' rb'.
       RingBuffer_run (3 :: 64 word)
         (take 3 [Write (1::int), Write 2, Write 3, Read, Write 4, Read, Read])
         (RingBuffer_init 3 0) = (Inr outs', rb')
     \<and> RingBuffer_size rb' \<le> 3)"
proof -
  let ?ops = "[Write (1::int), Write 2, Write 3, Read, Write 4, Read, Read]"
  have pos: "0 < (3 :: 64 word)"
    by simp
  have run: "RingBuffer_run (3 :: 64 word) ?ops (RingBuffer_init 3 0)
     = (Inr [1, 2, 3], \<lparr>RB_buf = [4, 2, 3], RB_head = 0, RB_tail = 1, RB_size = 1\<rparr>)"
    by (simp add: init_3 RingBuffer_write_def RingBuffer_read_def
        RingBuffer_full_def RingBuffer_empty_def Let_def)
  have k: "3 \<le> length ?ops"
    by simp
  from RingBuffer_fifo [OF pos run] pos run k show ?thesis
    by blast
qed

text \<open>
  As first stated, with the reads returning the whole sequence of written values, the
  law fails whenever a written value is left unread: after \<open>write(1)\<close>, \<open>write(2)\<close>,
  \<open>read()\<close> on a \<^verbatim>\<open>RingBuffer<int, 2>\<close> the reads returned \<open>[1]\<close>, the writes passed
  \<open>[1, 2]\<close>.
\<close>

theorem RingBuffer_fifo_counterexample:
  "fst (RingBuffer_run (2 :: 64 word) [Write (1::int), Write 2, Read] (RingBuffer_init 2 0))
     = Inr [1]
 \<and> written [Write (1::int), Write 2, Read] = [1, 2]
 \<and> fst (RingBuffer_run (2 :: 64 word) [Write (1::int), Write 2, Read] (RingBuffer_init 2 0))
     \<noteq> Inr (written [Write (1::int), Write 2, Read])"
  by (simp add: RingBuffer_init_def RingBuffer_write_def RingBuffer_read_def
      RingBuffer_full_def RingBuffer_empty_def Let_def)

end
